theory Spec2Isabelle
  imports Main
begin

section \<open>The hash table of \<^verbatim>\<open>hashy_step_table.py\<close>\<close>

subsection \<open>Data model\<close>

text \<open>
  A Python \<^verbatim>\<open>str\<close> is a sequence of code points; \<^verbatim>\<open>ord\<close> reads one as an
  unbounded integer. \<open>py\<close> turns a literal into such a sequence.
\<close>

type_synonym pystr = "nat list"

definition ord :: "nat \<Rightarrow> int" where
  "ord c = int c"

definition py :: "string \<Rightarrow> pystr" where
  "py s = map of_char s"

text \<open>The exceptions that the methods of \<^verbatim>\<open>HashyStepTable\<close> can raise.\<close>

datatype error = KeyError | FullError | ZeroDivisionError | ValueError | IndexError | TypeError

text \<open>
  An array cell holds \<^verbatim>\<open>None\<close>, the marker \<^verbatim>\<open>self.deleted\<close> (the string
  \<^verbatim>\<open>"<DELETED>"\<close>) or a tuple \<^verbatim>\<open>(key, data)\<close>. A tuple never equals a string, so
  the test \<^verbatim>\<open>item == self.deleted\<close> holds of the marker alone.
\<close>

datatype 'v cell = PyNone | DeletedMarker | Item pystr 'v

definition deleted :: pystr where
  "deleted = py ''<DELETED>''"

record 'v table =
  TABLE_SIZES :: "int list"
  size_index :: nat
  array :: "'v cell list"
  count :: int

definition DEFAULT_TABLE_SIZES :: "int list" where
  "DEFAULT_TABLE_SIZES = [5, 13, 29, 53, 97, 193, 389, 769, 1543, 3079, 6151, 12289, 24593,
     49157, 98317, 196613, 393241, 786433, 1572869]"

definition HASH_BASE :: int where
  "HASH_BASE = 31"

text \<open>
  Modelled from the spec: the class \<^verbatim>\<open>ArrayR\<close> of \<^verbatim>\<open>data_structures.referential_array\<close>
  is imported by the source and is not part of it. The spec describes the backing storage
  as a fixed-length sequence of slots addressed by an integer position in \<open>[0, capacity)\<close>,
  created with every slot empty, and the sizes as positive integers. It says nothing of
  other lengths and positions: here a length that is not positive is rejected with
  \<^verbatim>\<open>ValueError\<close> and a position out of range with \<^verbatim>\<open>IndexError\<close>. The probe only
  reads positions in range, and the round-trip theorem assumes positive sizes.
\<close>

definition ArrayR :: "int \<Rightarrow> error + 'v cell list" where
  "ArrayR n = (if n \<le> 0 then Inl ValueError else Inr (replicate (nat n) PyNone))"

definition array_get :: "'v cell list \<Rightarrow> int \<Rightarrow> error + 'v cell" where
  "array_get a i = (if 0 \<le> i \<and> i < int (length a) then Inr (a ! nat i) else Inl IndexError)"

definition array_set :: "'v cell list \<Rightarrow> int \<Rightarrow> 'v cell \<Rightarrow> 'v cell list" where
  "array_set a i x = a[nat i := x]"

subsection \<open>Construction\<close>

definition init :: "int list option \<Rightarrow> error + 'v table" where
  "init sizes =
     (let ts = (case sizes of None \<Rightarrow> DEFAULT_TABLE_SIZES | Some l \<Rightarrow> l) in
      case ts of
        [] \<Rightarrow> Inl IndexError
      | n # _ \<Rightarrow>
          (case ArrayR n of
             Inl e \<Rightarrow> Inl e
           | Inr a \<Rightarrow> Inr \<lparr>TABLE_SIZES = ts, size_index = 0, array = a, count = 0\<rparr>))"

definition table_size :: "'v table \<Rightarrow> int" where
  "table_size s = int (length (array s))"

subsection \<open>The two hash functions\<close>

text \<open>
  \<^verbatim>\<open>hash\<close>: the loop over the characters of the key, with the running \<open>value\<close> and
  multiplier \<open>a\<close>. \<open>m\<close> is \<^verbatim>\<open>self.table_size\<close>. Python's \<^verbatim>\<open>%\<close> raises
  \<^verbatim>\<open>ZeroDivisionError\<close> on a zero modulus and otherwise takes the sign of the modulus, as
  \<open>mod\<close> on \<open>int\<close> does.
\<close>

fun hash_loop :: "int \<Rightarrow> int \<Rightarrow> int \<Rightarrow> pystr \<Rightarrow> error + int" where
  "hash_loop m v a [] = Inr v"
| "hash_loop m v a (c # cs) =
     (if m = 0 then Inl ZeroDivisionError
      else let v' = (ord c + a * v) mod m in
        if m - 1 = 0 then Inl ZeroDivisionError
        else hash_loop m v' (a * HASH_BASE mod (m - 1)) cs)"

definition hash :: "'v table \<Rightarrow> pystr \<Rightarrow> error + int" where
  "hash s key = hash_loop (table_size s) 0 31415 key"

fun hash2_loop :: "int \<Rightarrow> int \<Rightarrow> pystr \<Rightarrow> error + int" where
  "hash2_loop m v [] = Inr v"
| "hash2_loop m v (c # cs) =
     (if m - 1 = 0 then Inl ZeroDivisionError
      else hash2_loop m ((v * HASH_BASE + ord c) mod (m - 1)) cs)"

definition hash2 :: "'v table \<Rightarrow> pystr \<Rightarrow> error + int" where
  "hash2 s key =
     (case hash2_loop (table_size s) 0 key of
        Inl e \<Rightarrow> Inl e
      | Inr v \<Rightarrow> Inr (v + 1))"

subsection \<open>Probing\<close>

text \<open>
  The \<^verbatim>\<open>for _ in range(self.table_size)\<close> loop of \<^verbatim>\<open>_hashy_probe\<close>; the first
  argument counts the iterations that remain. Falling out of the loop raises
  \<^verbatim>\<open>FullError\<close> whatever \<^verbatim>\<open>is_insert\<close> is.
\<close>

fun probe_loop :: "nat \<Rightarrow> 'v cell list \<Rightarrow> pystr \<Rightarrow> bool \<Rightarrow> int \<Rightarrow> int \<Rightarrow> error + int" where
  "probe_loop 0 a key is_insert position step = Inl FullError"
| "probe_loop (Suc n) a key is_insert position step =
     (case array_get a position of
        Inl e \<Rightarrow> Inl e
      | Inr PyNone \<Rightarrow> if is_insert then Inr position else Inl KeyError
      | Inr DeletedMarker \<Rightarrow>
          if is_insert then Inr position
          else probe_loop n a key is_insert ((position + step) mod int (length a)) step
      | Inr (Item k v) \<Rightarrow>
          if k = key then Inr position
          else probe_loop n a key is_insert ((position + step) mod int (length a)) step)"

definition hashy_probe :: "'v table \<Rightarrow> pystr \<Rightarrow> bool \<Rightarrow> error + int" where
  "hashy_probe s key is_insert =
     (case hash s key of
        Inl e \<Rightarrow> Inl e
      | Inr position \<Rightarrow>
          (case hash2 s key of
             Inl e \<Rightarrow> Inl e
           | Inr step \<Rightarrow> probe_loop (length (array s)) (array s) key is_insert position step))"

subsection \<open>Length\<close>

text \<open>
  \<open>len_dunder\<close> is the method \<^verbatim>\<open>__len__\<close>. \<open>len\<close> is Python's builtin applied to the
  table, as \<^verbatim>\<open>__setitem__\<close> calls it: the builtin calls \<^verbatim>\<open>__len__\<close> and raises
  \<^verbatim>\<open>ValueError\<close> when the method returns a negative number.
\<close>

definition len_dunder :: "'v table \<Rightarrow> int" where
  "len_dunder s = count s"

definition len :: "'v table \<Rightarrow> error + int" where
  "len s = (if len_dunder s < 0 then Inl ValueError else Inr (len_dunder s))"

subsection \<open>Lookup, deletion and scans\<close>

text \<open>
  What a subscript of an array cell or a scan can return: a string or a stored value.
  \<^verbatim>\<open>"<DELETED>"[i]\<close> is the one-character string at index \<open>i\<close> of the marker;
  \<^verbatim>\<open>None[i]\<close> raises \<^verbatim>\<open>TypeError\<close>.
\<close>

datatype 'v pyobj = Str pystr | Data 'v

definition getitem :: "'v table \<Rightarrow> pystr \<Rightarrow> error + 'v pyobj" where
  "getitem s key =
     (case hashy_probe s key False of
        Inl e \<Rightarrow> Inl e
      | Inr position \<Rightarrow>
          (case array s ! nat position of
             PyNone \<Rightarrow> Inl TypeError
           | DeletedMarker \<Rightarrow> Inr (Str [deleted ! 1])
           | Item k v \<Rightarrow> Inr (Data v)))"

definition contains :: "'v table \<Rightarrow> pystr \<Rightarrow> error + bool" where
  "contains s key =
     (case getitem s key of
        Inl KeyError \<Rightarrow> Inr False
      | Inl e \<Rightarrow> Inl e
      | Inr _ \<Rightarrow> Inr True)"

definition delitem :: "'v table \<Rightarrow> pystr \<Rightarrow> (error + unit) \<times> 'v table" where
  "delitem s key =
     (case hashy_probe s key False of
        Inl e \<Rightarrow> (Inl e, s)
      | Inr position \<Rightarrow>
          (Inr (), s\<lparr>array := array_set (array s) position DeletedMarker,
                     count := count s - 1\<rparr>))"

definition is_empty :: "'v table \<Rightarrow> bool" where
  "is_empty s = (count s = 0)"

definition is_full :: "'v table \<Rightarrow> bool" where
  "is_full s = (count s = table_size s)"

text \<open>
  \<^verbatim>\<open>keys\<close> and \<^verbatim>\<open>values\<close> scan the positions in order and skip the cells that are
  \<^verbatim>\<open>None\<close>; of every other cell they append the subscript \<^verbatim>\<open>[0]\<close>, respectively
  \<^verbatim>\<open>[1]\<close>.
\<close>

fun keys_loop :: "'v cell list \<Rightarrow> pystr list \<Rightarrow> pystr list" where
  "keys_loop [] res = res"
| "keys_loop (x # xs) res =
     (case x of
        PyNone \<Rightarrow> keys_loop xs res
      | DeletedMarker \<Rightarrow> keys_loop xs (res @ [[deleted ! 0]])
      | Item k v \<Rightarrow> keys_loop xs (res @ [k]))"

definition keys :: "'v table \<Rightarrow> pystr list" where
  "keys s = keys_loop (array s) []"

fun values_loop :: "'v cell list \<Rightarrow> 'v pyobj list \<Rightarrow> 'v pyobj list" where
  "values_loop [] res = res"
| "values_loop (x # xs) res =
     (case x of
        PyNone \<Rightarrow> values_loop xs res
      | DeletedMarker \<Rightarrow> values_loop xs (res @ [Str [deleted ! 1]])
      | Item k v \<Rightarrow> values_loop xs (res @ [Data v]))"

definition "values" :: "'v table \<Rightarrow> 'v pyobj list" where
  "values s = values_loop (array s) []"

subsection \<open>Insertion and resizing\<close>

text \<open>
  \<^verbatim>\<open>__setitem__\<close>, \<^verbatim>\<open>_rehash\<close> and the loop of \<^verbatim>\<open>_rehash\<close> over the old array,
  which calls \<^verbatim>\<open>__setitem__\<close> again. Every function returns the table as the call leaves
  it, also when it raises: an exception undoes nothing. The test
  \<^verbatim>\<open>len(self) > self.table_size * 2 / 3\<close> compares an integer with a float; it is the
  test \<open>3 * len > table_size * 2\<close> for every table size below \<open>2 ^ 52\<close>.
\<close>

function setitem :: "'v table \<Rightarrow> pystr \<Rightarrow> 'v \<Rightarrow> (error + unit) \<times> 'v table"
  and rehash :: "'v table \<Rightarrow> (error + unit) \<times> 'v table"
  and rehash_loop :: "'v cell list \<Rightarrow> 'v table \<Rightarrow> (error + unit) \<times> 'v table"
where
  "setitem s key data =
     (case hashy_probe s key True of
        Inl e \<Rightarrow> (Inl e, s)
      | Inr position \<Rightarrow>
          (let s1 = (if array s ! nat position = PyNone then s\<lparr>count := count s + 1\<rparr> else s);
               s2 = s1\<lparr>array := array_set (array s1) position (Item key data)\<rparr>
           in case len s2 of
                Inl e \<Rightarrow> (Inl e, s2)
              | Inr n \<Rightarrow> if 3 * n > table_size s2 * 2 then rehash s2 else (Inr (), s2)))"
| "rehash s =
     (let old_array = array s;
          s1 = s\<lparr>size_index := size_index s + 1\<rparr>
      in if size_index s1 \<ge> length (TABLE_SIZES s1) then (Inl FullError, s1)
         else case ArrayR (TABLE_SIZES s1 ! size_index s1) of
                Inl e \<Rightarrow> (Inl e, s1)
              | Inr a \<Rightarrow> rehash_loop old_array (s1\<lparr>array := a, count := 0\<rparr>))"
| "rehash_loop [] s = (Inr (), s)"
| "rehash_loop (item # rest) s =
     (case item of
        Item k v \<Rightarrow>
          (case setitem s k v of
             (Inl e, s') \<Rightarrow> (Inl e, s')
           | (Inr u, s') \<Rightarrow> rehash_loop rest s')
      | _ \<Rightarrow> rehash_loop rest s)"
  by pat_completeness auto

text \<open>
  Termination: a call of \<^verbatim>\<open>_rehash\<close> that reaches its loop has advanced
  \<open>size_index\<close>, which never decreases and stays below the number of sizes there.
\<close>

lemma setitem_rehash_dom_mono:
  "setitem_rehash_rehash_loop_dom (Inl (s, key, data)) \<Longrightarrow>
      TABLE_SIZES (snd (setitem s key data)) = TABLE_SIZES s \<and>
      size_index s \<le> size_index (snd (setitem s key data))"
  "setitem_rehash_rehash_loop_dom (Inr (Inl s0)) \<Longrightarrow>
      TABLE_SIZES (snd (rehash s0)) = TABLE_SIZES s0 \<and>
      size_index s0 \<le> size_index (snd (rehash s0))"
  "setitem_rehash_rehash_loop_dom (Inr (Inr (l, s1))) \<Longrightarrow>
      TABLE_SIZES (snd (rehash_loop l s1)) = TABLE_SIZES s1 \<and>
      size_index s1 \<le> size_index (snd (rehash_loop l s1))"
  for s s0 s1 :: "'v table"
proof (induction s key data and s0 and l s1 rule: setitem_rehash_rehash_loop.pinduct)
  case (1 s key data)
  show ?case
  proof (cases "hashy_probe s key True")
    case (Inl e)
    with 1(1) show ?thesis by (simp add: setitem.psimps)
  next
    case (Inr b)
    define x where "x = (if array s ! nat b = PyNone then s\<lparr>count := count s + 1\<rparr> else s)"
    define xa where "xa = x\<lparr>array := array_set (array x) b (Item key data)\<rparr>"
    have eq: "TABLE_SIZES xa = TABLE_SIZES s" "size_index xa = size_index s"
      by (simp_all add: xa_def x_def)
    show ?thesis
    proof (cases "len xa")
      case (Inl e)
      with 1(1) Inr eq show ?thesis
        by (simp add: setitem.psimps Let_def x_def [symmetric] xa_def [symmetric])
    next
      case len: (Inr ba)
      show ?thesis
      proof (cases "table_size xa * 2 < 3 * ba")
        case True
        from 1(2)[OF Inr x_def xa_def len True] 1(1) Inr len True eq show ?thesis
          by (simp add: setitem.psimps Let_def x_def [symmetric] xa_def [symmetric])
      next
        case False
        with 1(1) Inr len eq show ?thesis
          by (simp add: setitem.psimps Let_def x_def [symmetric] xa_def [symmetric])
      qed
    qed
  qed
next
  case (2 s)
  show ?case
  proof (cases "length (TABLE_SIZES s) \<le> size_index s + 1")
    case True
    with 2(1) show ?thesis by (simp add: rehash.psimps Let_def)
  next
    case False
    show ?thesis
    proof (cases "ArrayR (TABLE_SIZES s ! (size_index s + 1)) :: error + 'v cell list")
      case (Inl e)
      with 2(1) False show ?thesis by (simp add: rehash.psimps Let_def)
    next
      case (Inr b)
      from 2(2)[OF refl refl _ ] False Inr
      have "TABLE_SIZES (snd (rehash_loop (array s) (s\<lparr>size_index := size_index s + 1, array := b, count := 0\<rparr>))) = TABLE_SIZES s
          \<and> size_index s + 1 \<le> size_index (snd (rehash_loop (array s) (s\<lparr>size_index := size_index s + 1, array := b, count := 0\<rparr>)))"
        by simp
      with 2(1) False Inr show ?thesis by (simp add: rehash.psimps Let_def)
    qed
  qed
next
  case (3 s)
  then show ?case by (simp add: rehash_loop.psimps)
next
  case (4 item rest s)
  show ?case
  proof (cases item)
    case PyNone
    with 4(1) 4(2) show ?thesis by (simp add: rehash_loop.psimps)
  next
    case DeletedMarker
    with 4(1) 4(3) show ?thesis by (simp add: rehash_loop.psimps)
  next
    case (Item k v)
    obtain r y where sy: "setitem s k v = (r, y)" by (cases "setitem s k v")
    from 4(4)[OF Item] sy have y: "TABLE_SIZES y = TABLE_SIZES s" "size_index s \<le> size_index y"
      by simp_all
    show ?thesis
    proof (cases r)
      case (Inl e)
      with 4(1) Item sy y show ?thesis by (simp add: rehash_loop.psimps)
    next
      case (Inr u)
      from 4(5)[OF Item sy [symmetric] Inr] y 4(1) Item sy Inr show ?thesis
        by (simp add: rehash_loop.psimps)
    qed
  qed
qed

termination setitem
proof (relation "inv_image (less_than <*lex*> less_than <*lex*> less_than)
     (\<lambda>x. case x of
        Inl (s, k, d) \<Rightarrow> (length (TABLE_SIZES s) - size_index s, 1::nat, 0::nat)
      | Inr (Inl s) \<Rightarrow> (length (TABLE_SIZES s) - size_index s, 0, 0)
      | Inr (Inr (l, s)) \<Rightarrow> (length (TABLE_SIZES s) - size_index s, 2, length l))", goal_cases)
  case 1
  then show ?case by (intro wf_inv_image wf_lex_prod wf_less_than)
next
  case (2 s key data b x xa ba)
  then show ?case by (auto split: if_splits)
next
  case (3 s x xa b)
  then show ?case by auto
next
  case (4 item rest s)
  then show ?case by simp
next
  case (5 item rest s)
  then show ?case by simp
next
  case (6 item rest s x31 x32)
  then show ?case by simp
next
  case (7 item rest s x31 x32 x y b)
  from setitem_rehash_dom_mono(1)[of s x31 x32] 7 have "TABLE_SIZES y = TABLE_SIZES s \<and> size_index s \<le> size_index y"
    by (metis snd_conv)
  then show ?case by auto
qed

subsection \<open>Clients\<close>

text \<open>
  A client calls \<^verbatim>\<open>table[key] = data\<close> and \<^verbatim>\<open>del table[key]\<close> in any order and may
  catch what they raise; the table stays as the failed call left it. \<open>run\<close> returns the
  outcome of every call and the table after the last one.
\<close>

datatype 'v op = Set pystr 'v | Del pystr

fun exec :: "'v table \<Rightarrow> 'v op \<Rightarrow> (error + unit) \<times> 'v table" where
  "exec s (Set key data) = setitem s key data"
| "exec s (Del key) = delitem s key"

fun run :: "'v table \<Rightarrow> 'v op list \<Rightarrow> (error + unit) list \<times> 'v table" where
  "run s [] = ([], s)"
| "run s (x # xs) =
     (case exec s x of (r, s') \<Rightarrow> (case run s' xs of (rs, s'') \<Rightarrow> (r # rs, s'')))"

text \<open>The table that \<^verbatim>\<open>HashyStepTable()\<close> constructs, with the default sizes.\<close>

definition default_table :: "'v table" where
  "default_table =
     \<lparr>TABLE_SIZES = DEFAULT_TABLE_SIZES, size_index = 0, array = replicate 5 PyNone, count = 0\<rparr>"

text \<open>The number of cells of the array that hold a \<^verbatim>\<open>(key, data)\<close> tuple.\<close>

fun is_item :: "'v cell \<Rightarrow> bool" where
  "is_item (Item k v) = True"
| "is_item _ = False"

definition occupied :: "'v table \<Rightarrow> int" where
  "occupied s = int (length (filter is_item (array s)))"

subsection \<open>The step as the spec states it\<close>

text \<open>
  The spec gives the step as \<open>secondary_hash(key) mod (m - 1) + 1\<close>, where the secondary
  hash is a polynomial accumulation over the characters of the key with base 31. This is
  that accumulation with no modulus applied on the way: for the characters
  \<open>c\<^sub>1 \<dots> c\<^sub>n\<close> it is the sum of the \<open>ord c\<^sub>i * 31 ^ (n - i)\<close>, computed by Horner's rule.
\<close>

fun secondary_hash_acc :: "int \<Rightarrow> pystr \<Rightarrow> int" where
  "secondary_hash_acc v [] = v"
| "secondary_hash_acc v (c # cs) = secondary_hash_acc (v * HASH_BASE + ord c) cs"

definition secondary_hash :: "pystr \<Rightarrow> int" where
  "secondary_hash key = secondary_hash_acc 0 key"

subsection \<open>The load bound\<close>

text \<open>The length is not negative and is at most two thirds of the capacity.\<close>

definition load_ok :: "'v table \<Rightarrow> bool" where
  "load_ok s = (0 \<le> count s \<and> 3 * count s \<le> table_size s * 2)"

subsection \<open>Invariants of the probe walk\<close>

text \<open>
  \<open>store\<close> is the part of \<^verbatim>\<open>__setitem__\<close> between the probe and the load test: the
  counter update and the write of the tuple.
\<close>

definition store :: "'v table \<Rightarrow> pystr \<Rightarrow> 'v \<Rightarrow> int \<Rightarrow> 'v table" where
  "store s key data position =
     (let s1 = (if array s ! nat position = PyNone then s\<lparr>count := count s + 1\<rparr> else s)
      in s1\<lparr>array := array_set (array s1) position (Item key data)\<rparr>)"

text \<open>
  \<open>placed n a x position step\<close>: the walk of at most \<open>n\<close> probes from \<open>position\<close> reaches
  \<open>x\<close> and passes no cell that is \<^verbatim>\<open>None\<close> before it.
\<close>

fun placed :: "nat \<Rightarrow> 'v cell list \<Rightarrow> int \<Rightarrow> int \<Rightarrow> int \<Rightarrow> bool" where
  "placed 0 a x position step = False"
| "placed (Suc n) a x position step =
     (position = x \<or>
      (a ! nat position \<noteq> PyNone \<and> placed n a x ((position + step) mod int (length a)) step))"

text \<open>Every stored tuple sits on the probe walk of its own key, behind no \<^verbatim>\<open>None\<close> cell.\<close>

definition well_placed :: "'v table \<Rightarrow> bool" where
  "well_placed s =
     (\<forall>x < length (array s). \<forall>k v. array s ! x = Item k v \<longrightarrow>
        (\<exists>h st. hash s k = Inr h \<and> hash2 s k = Inr st \<and>
           placed (length (array s)) (array s) (int x) h st))"

text \<open>The load bound holds, or no further size is configured.\<close>

definition resize_ready :: "'v table \<Rightarrow> bool" where
  "resize_ready s =
     (3 * count s \<le> table_size s * 2 \<or> length (TABLE_SIZES s) \<le> size_index s + 1)"

text \<open>Every configured size is positive, as the spec requires of \<^verbatim>\<open>sizes\<close>.\<close>

definition sizes_positive :: "'v table \<Rightarrow> bool" where
  "sizes_positive s = (\<forall>n \<in> set (TABLE_SIZES s). 0 < n)"

definition consistent :: "'v table \<Rightarrow> bool" where
  "consistent s = (well_placed s \<and> resize_ready s \<and> sizes_positive s)"

text \<open>Every tuple of the array with key \<open>k\<close> carries the value \<open>v\<close>.\<close>

definition agrees :: "pystr \<Rightarrow> 'v \<Rightarrow> 'v cell list \<Rightarrow> bool" where
  "agrees k v a = (\<forall>v'. Item k v' \<in> set a \<longrightarrow> v' = v)"

section \<open>Properties\<close>

lemmas eval_defs = init_def ArrayR_def py_def ord_def HASH_BASE_def table_size_def hash_def
  hash2_def hashy_probe_def array_get_def array_set_def len_def len_dunder_def getitem_def
  delitem_def contains_def keys_def values_def deleted_def is_empty_def
  DEFAULT_TABLE_SIZES_def Let_def

subsection \<open>The hash functions\<close>

lemma hash_loop_range:
  "0 < m \<Longrightarrow> 0 \<le> v \<Longrightarrow> v < m \<Longrightarrow> hash_loop m v a key = Inr h \<Longrightarrow> 0 \<le> h \<and> h < m"
proof (induction key arbitrary: v a)
  case Nil
  then show ?case by simp
next
  case (Cons c cs)
  from Cons.prems have m: "m \<noteq> 0" "m - 1 \<noteq> 0"
    by (auto split: if_splits)
  let ?v = "(ord c + a * v) mod m"
  from Cons.prems m have "hash_loop m ?v (a * HASH_BASE mod (m - 1)) cs = Inr h"
    by (simp add: Let_def)
  moreover have "0 \<le> ?v" "?v < m" using Cons.prems(1) by simp_all
  ultimately show ?case using Cons.IH Cons.prems(1) by blast
qed

lemma hash_loop_total: "2 \<le> m \<Longrightarrow> \<exists>h. hash_loop m v a key = Inr h"
proof (induction key arbitrary: v a)
  case Nil
  show ?case by simp
next
  case (Cons c cs)
  from Cons.prems have "m \<noteq> 0" "m - 1 \<noteq> 0" by simp_all
  then have "hash_loop m v a (c # cs)
      = hash_loop m ((ord c + a * v) mod m) (a * HASH_BASE mod (m - 1)) cs"
    by (simp add: Let_def)
  with Cons.IH [OF Cons.prems] show ?case by (simp only:)
qed

lemma hash2_loop_mod:
  "2 \<le> m \<Longrightarrow> hash2_loop m (v mod (m - 1)) key = Inr (secondary_hash_acc v key mod (m - 1))"
proof (induction key arbitrary: v)
  case Nil
  then show ?case by simp
next
  case (Cons c cs)
  have "(v mod (m - 1) * HASH_BASE + ord c) mod (m - 1) = (v * HASH_BASE + ord c) mod (m - 1)"
    by (metis mod_add_left_eq mod_mult_left_eq)
  with Cons show ?case by simp
qed

lemma hash2_eq:
  assumes "2 \<le> table_size s"
  shows "hash2 s key = Inr (secondary_hash key mod (table_size s - 1) + 1)"
  using hash2_loop_mod [OF assms, of 0 key] by (simp add: hash2_def secondary_hash_def)

lemma step_advances:
  fixes m :: int
  assumes "1 \<le> step" "step \<le> m - 1" "0 \<le> position" "position < m"
  shows "(position + step) mod m \<noteq> position"
proof (cases "position + step < m")
  case True
  with assms show ?thesis by simp
next
  case False
  with assms have "0 < m" "m \<le> position + step" by simp_all
  then have "(position + step) mod m = (position + step - m) mod m"
    by (rule mod_pos_geq)
  also have "\<dots> = position + step - m"
    using assms False by (intro mod_pos_pos_trivial) simp_all
  finally show ?thesis using assms by simp
qed

text \<open>
  C8. On a table of capacity \<open>m \<ge> 2\<close>, \<^verbatim>\<open>hash2\<close> returns for every key the step
  \<open>secondary_hash key mod (m - 1) + 1\<close>. That step lies between 1 and \<open>m - 1\<close>, so it is
  not zero, and from every position of the table the next probe position
  \<open>(position + step) mod m\<close> differs from the current one.
\<close>

theorem hash2_step:
  assumes "2 \<le> table_size s"
  shows "\<exists>step. hash2 s key = Inr step \<and>
           step = secondary_hash key mod (table_size s - 1) + 1 \<and>
           1 \<le> step \<and> step \<le> table_size s - 1 \<and>
           (\<forall>position. 0 \<le> position \<and> position < table_size s \<longrightarrow>
              (position + step) mod table_size s \<noteq> position)"
proof -
  let ?m = "table_size s"
  let ?step = "secondary_hash key mod (?m - 1) + 1"
  have "0 \<le> secondary_hash key mod (?m - 1)" "secondary_hash key mod (?m - 1) < ?m - 1"
    using assms by simp_all
  then have r: "1 \<le> ?step" "?step \<le> ?m - 1"
    by linarith+
  have adv: "\<forall>position. 0 \<le> position \<and> position < ?m \<longrightarrow> (position + ?step) mod ?m \<noteq> position"
    using step_advances [OF r] by simp
  show ?thesis
    by (rule exI [of _ ?step]) (intro conjI hash2_eq [OF assms] refl r adv)
qed

theorem hash2_step_witness:
  "2 \<le> table_size (default_table :: int table) \<and>
   (\<exists>step. hash2 (default_table :: int table) (py ''ab'') = Inr step \<and> step = 2 \<and>
      1 \<le> step \<and> step \<le> 4 \<and> (3 + step) mod 5 \<noteq> 3)"
  using hash2_step [of "default_table :: int table" "py ''ab''"]
  by (simp add: table_size_def default_table_def secondary_hash_def py_def ord_def HASH_BASE_def)

declare setitem.simps [simp del] rehash.simps [simp del]

lemma probe_loop_step:
  assumes "0 < n" "0 \<le> position" "position < int (length a)"
  shows "probe_loop n a key is_insert position step =
     (case a ! nat position of
        PyNone \<Rightarrow> if is_insert then Inr position else Inl KeyError
      | DeletedMarker \<Rightarrow>
          if is_insert then Inr position
          else probe_loop (n - 1) a key is_insert ((position + step) mod int (length a)) step
      | Item k v \<Rightarrow>
          if k = key then Inr position
          else probe_loop (n - 1) a key is_insert ((position + step) mod int (length a)) step)"
  using assms by (cases n) (auto simp: array_get_def split: cell.splits)

lemma hash_ok:
  assumes "2 \<le> table_size s"
  shows "\<exists>h. hash s key = Inr h \<and> 0 \<le> h \<and> h < table_size s"
proof -
  from hash_loop_total [OF assms] obtain h where h: "hash_loop (table_size s) 0 31415 key = Inr h"
    by blast
  with hash_loop_range [of "table_size s" 0 31415 key h] assms show ?thesis
    by (simp add: hash_def)
qed

lemma hash_cong: "table_size s' = table_size s \<Longrightarrow> hash s' key = hash s key"
  by (simp add: hash_def)

lemma hash2_cong: "table_size s' = table_size s \<Longrightarrow> hash2 s' key = hash2 s key"
  by (simp add: hash2_def)

subsection \<open>The scenario with sizes 5 and 13\<close>

text \<open>
  C9. On a table constructed with \<^verbatim>\<open>sizes = [5, 13]\<close>, the keys \<^verbatim>\<open>"a"\<close>, \<^verbatim>\<open>"b"\<close>,
  \<^verbatim>\<open>"c"\<close>, \<^verbatim>\<open>"d"\<close> are inserted with any four values. After the third insertion the
  table still has capacity 5 and three entries; the fourth raises the count to 4, which
  exceeds two thirds of 5, and the table is rebuilt at capacity 13. All four keys are then
  found by \<^verbatim>\<open>get\<close> with the values they were inserted with, and the length is 4.
\<close>

theorem scenario_5_13:
  "\<exists>t0 t1 t2 t3 t4.
     init (Some [5, 13]) = Inr t0 \<and>
     setitem t0 (py ''a'') v1 = (Inr (), t1) \<and>
     setitem t1 (py ''b'') v2 = (Inr (), t2) \<and>
     setitem t2 (py ''c'') v3 = (Inr (), t3) \<and>
     table_size t3 = 5 \<and> count t3 = 3 \<and>
     setitem t3 (py ''d'') v4 = (Inr (), t4) \<and>
     table_size t4 = 13 \<and>
     getitem t4 (py ''a'') = Inr (Data v1) \<and>
     getitem t4 (py ''b'') = Inr (Data v2) \<and>
     getitem t4 (py ''c'') = Inr (Data v3) \<and>
     getitem t4 (py ''d'') = Inr (Data v4) \<and>
     len t4 = Inr 4 \<and> len_dunder t4 = 4"
  by (simp add: eval_defs setitem.simps rehash.simps eval_nat_numeral)

subsection \<open>Counting, scanning and lookup after a deletion\<close>

lemma init_default: "init None = Inr default_table"
  by (simp add: init_def ArrayR_def DEFAULT_TABLE_SIZES_def default_table_def eval_nat_numeral)

text \<open>
  C1. The claim is that \<open>count\<close> equals the number of occupied cells after every
  operation and that an insertion into a cell holding the deletion marker increments
  \<open>count\<close>. \<^verbatim>\<open>__setitem__\<close> increments \<open>count\<close> only when the cell is \<^verbatim>\<open>None\<close>:
  on a fresh default table, after \<^verbatim>\<open>t["a"] = 1; del t["a"]; t["a"] = 2\<close> (each call
  succeeds) one cell is occupied and \<open>count\<close> is 0.
\<close>

theorem count_after_marker_reuse:
  "init None = Inr (default_table :: int table) \<and>
   fst (run (default_table :: int table) [Set (py ''a'') 1, Del (py ''a''), Set (py ''a'') 2])
     = [Inr (), Inr (), Inr ()] \<and>
   occupied (snd (run (default_table :: int table)
     [Set (py ''a'') 1, Del (py ''a''), Set (py ''a'') 2])) = 1 \<and>
   count (snd (run (default_table :: int table)
     [Set (py ''a'') 1, Del (py ''a''), Set (py ''a'') 2])) = 0"
  by (simp add: init_default) (simp add: eval_defs setitem.simps rehash.simps occupied_def default_table_def eval_nat_numeral)

text \<open>
  C2. The claim is that \<^verbatim>\<open>keys()\<close> and \<^verbatim>\<open>values()\<close> skip the cells that hold the
  deletion marker. They skip \<^verbatim>\<open>None\<close> only: on a fresh default table, after
  \<^verbatim>\<open>t["a"] = 1; del t["a"]\<close> the array holds the marker at position 2 and no tuple,
  \<^verbatim>\<open>keys()\<close> is \<^verbatim>\<open>["<"]\<close> and \<^verbatim>\<open>values()\<close> is \<^verbatim>\<open>["D"]\<close>, the first two
  characters of the marker \<^verbatim>\<open>"<DELETED>"\<close>.
\<close>

theorem keys_values_after_delete:
  "fst (run (default_table :: int table) [Set (py ''a'') 1, Del (py ''a'')]) = [Inr (), Inr ()] \<and>
   array (snd (run (default_table :: int table) [Set (py ''a'') 1, Del (py ''a'')]))
     = [PyNone, PyNone, DeletedMarker, PyNone, PyNone] \<and>
   keys (snd (run (default_table :: int table) [Set (py ''a'') 1, Del (py ''a'')])) = [py ''<''] \<and>
   values (snd (run (default_table :: int table) [Set (py ''a'') 1, Del (py ''a'')]))
     = [Str (py ''D'')]"
  by (simp add: eval_defs setitem.simps rehash.simps default_table_def eval_nat_numeral)

text \<open>
  C3. The claim is that a lookup whose probe walk visits \<open>capacity\<close> positions without
  resolution fails with \<^verbatim>\<open>KeyError\<close> and never with \<^verbatim>\<open>FullError\<close>. The loop of
  \<^verbatim>\<open>_hashy_probe\<close> falls through to \<^verbatim>\<open>raise FullError\<close> in both modes: on a fresh
  default table, inserting and deleting \<^verbatim>\<open>"a"\<close>, \<^verbatim>\<open>"b"\<close>, \<^verbatim>\<open>"c"\<close>, \<^verbatim>\<open>"d"\<close>,
  \<^verbatim>\<open>"e"\<close> in turn (every call succeeds) leaves the marker in all five cells, and then
  \<^verbatim>\<open>t["a"]\<close>, \<^verbatim>\<open>"a" in t\<close> and \<^verbatim>\<open>del t["a"]\<close> raise \<^verbatim>\<open>FullError\<close>.
\<close>

theorem lookup_raises_full_error:
  "fst (run (default_table :: int table)
     [Set (py ''a'') 1, Del (py ''a''), Set (py ''b'') 2, Del (py ''b''), Set (py ''c'') 3,
      Del (py ''c''), Set (py ''d'') 4, Del (py ''d''), Set (py ''e'') 5, Del (py ''e'')])
     = replicate 10 (Inr ()) \<and>
   array (snd (run (default_table :: int table)
     [Set (py ''a'') 1, Del (py ''a''), Set (py ''b'') 2, Del (py ''b''), Set (py ''c'') 3,
      Del (py ''c''), Set (py ''d'') 4, Del (py ''d''), Set (py ''e'') 5, Del (py ''e'')]))
     = replicate 5 DeletedMarker \<and>
   getitem (snd (run (default_table :: int table)
     [Set (py ''a'') 1, Del (py ''a''), Set (py ''b'') 2, Del (py ''b''), Set (py ''c'') 3,
      Del (py ''c''), Set (py ''d'') 4, Del (py ''d''), Set (py ''e'') 5, Del (py ''e'')]))
     (py ''a'') = Inl FullError \<and>
   contains (snd (run (default_table :: int table)
     [Set (py ''a'') 1, Del (py ''a''), Set (py ''b'') 2, Del (py ''b''), Set (py ''c'') 3,
      Del (py ''c''), Set (py ''d'') 4, Del (py ''d''), Set (py ''e'') 5, Del (py ''e'')]))
     (py ''a'') = Inl FullError \<and>
   fst (delitem (snd (run (default_table :: int table)
     [Set (py ''a'') 1, Del (py ''a''), Set (py ''b'') 2, Del (py ''b''), Set (py ''c'') 3,
      Del (py ''c''), Set (py ''d'') 4, Del (py ''d''), Set (py ''e'') 5, Del (py ''e'')]))
     (py ''a'')) = Inl FullError"
  by (simp add: eval_defs setitem.simps rehash.simps default_table_def eval_nat_numeral)

subsection \<open>A negative length\<close>

text \<open>
  C10, as claimed: on a fresh table, after \<^verbatim>\<open>t[k] = v1; del t[k]; t[k] = v2; del t[k]\<close>
  the public \<^verbatim>\<open>len()\<close> yields \<open>-1\<close>. It does not: on the default table, with the key
  \<^verbatim>\<open>"k"\<close>, the four calls succeed and \<^verbatim>\<open>len(t)\<close> then raises \<^verbatim>\<open>ValueError\<close>, because
  the builtin rejects the negative result of \<^verbatim>\<open>__len__\<close>.
\<close>

theorem len_negative_counterexample:
  "fst (run (default_table :: int table)
     [Set (py ''k'') 1, Del (py ''k''), Set (py ''k'') 2, Del (py ''k'')])
     = [Inr (), Inr (), Inr (), Inr ()] \<and>
   len (snd (run (default_table :: int table)
     [Set (py ''k'') 1, Del (py ''k''), Set (py ''k'') 2, Del (py ''k'')])) = Inl ValueError \<and>
   len (snd (run (default_table :: int table)
     [Set (py ''k'') 1, Del (py ''k''), Set (py ''k'') 2, Del (py ''k'')])) \<noteq> Inr (- 1)"
  by (simp add: eval_defs setitem.simps rehash.simps default_table_def eval_nat_numeral)

text \<open>
  C10, as the code has it. On a fresh table of capacity at least 2 (the default table has
  capacity 5), for every key \<open>k\<close> and values, the calls
  \<^verbatim>\<open>t[k] = v1; del t[k]; t[k] = v2; del t[k]\<close> all succeed and act on the one cell at the
  start position \<open>h\<close> of \<open>k\<close>: the first insertion writes the tuple there and sets
  \<open>count\<close> to 1; the first deletion leaves the deletion marker there and \<open>count\<close> at 0;
  the second insertion writes its tuple over the marker and leaves \<open>count\<close> at 0; the
  second deletion leaves the marker again and decrements \<open>count\<close> to \<open>-1\<close>. Afterwards
  \<open>count\<close> and the method \<^verbatim>\<open>__len__\<close> are \<open>-1\<close>, \<^verbatim>\<open>is_empty()\<close> is false, and the
  builtin \<^verbatim>\<open>len(t)\<close> raises \<^verbatim>\<open>ValueError\<close>.
\<close>

theorem len_negative:
  fixes t0 :: "'v table"
  assumes "init sizes = Inr t0" and "2 \<le> table_size t0"
  shows "\<exists>h t1 t2 t3 t4.
     hash t0 k = Inr h \<and> 0 \<le> h \<and> h < table_size t0 \<and>
     setitem t0 k v1 = (Inr (), t1) \<and> array t1 ! nat h = Item k v1 \<and> count t1 = 1 \<and>
     delitem t1 k = (Inr (), t2) \<and> array t2 ! nat h = DeletedMarker \<and> count t2 = 0 \<and>
     setitem t2 k v2 = (Inr (), t3) \<and> array t3 ! nat h = Item k v2 \<and> count t3 = 0 \<and>
     delitem t3 k = (Inr (), t4) \<and> array t4 ! nat h = DeletedMarker \<and> count t4 = - 1 \<and>
     len_dunder t4 = - 1 \<and> len t4 = Inl ValueError \<and> \<not> is_empty t4"
proof -
  from assms(1) obtain ts n where t0: "t0 = \<lparr>TABLE_SIZES = ts, size_index = 0,
      array = replicate (nat n) PyNone, count = 0\<rparr>" and n: "0 < n"
    by (auto simp: init_def ArrayR_def Let_def split: list.splits if_splits option.splits)
  have tsn: "table_size t0 = n" using n by (simp add: t0 table_size_def)
  from assms(2) tsn have n2: "2 \<le> n" by simp
  from hash_ok [OF assms(2), of k] obtain h where
    h: "hash t0 k = Inr h" "0 \<le> h" "h < n" unfolding tsn by blast
  from hash2_eq [OF assms(2), of k] obtain st where st: "hash2 t0 k = Inr st" by blast
  define a1 where "a1 = (replicate (nat n) PyNone)[nat h := Item k v1]"
  define a2 where "a2 = a1[nat h := DeletedMarker]"
  define a3 where "a3 = a2[nat h := Item k v2]"
  define a4 where "a4 = a3[nat h := DeletedMarker]"
  define t1 where "t1 = t0\<lparr>count := 1, array := a1\<rparr>"
  define t2 where "t2 = t1\<lparr>array := a2, count := 0\<rparr>"
  define t3 where "t3 = t2\<lparr>array := a3\<rparr>"
  define t4 where "t4 = t3\<lparr>array := a4, count := - 1\<rparr>"
  have len: "length a1 = nat n" "length a2 = nat n" "length a3 = nat n" "length a4 = nat n"
    by (simp_all add: a1_def a2_def a3_def a4_def)
  have ts: "table_size t1 = table_size t0" "table_size t2 = table_size t0"
    "table_size t3 = table_size t0"
    using n by (simp_all add: table_size_def t1_def t2_def t3_def t0 len)
  have hs: "hash t1 k = Inr h" "hash t2 k = Inr h" "hash t3 k = Inr h"
    "hash2 t1 k = Inr st" "hash2 t2 k = Inr st" "hash2 t3 k = Inr st"
    using h(1) st by (simp_all add: hash_cong [OF ts(1)] hash_cong [OF ts(2)] hash_cong [OF ts(3)]
        hash2_cong [OF ts(1)] hash2_cong [OF ts(2)] hash2_cong [OF ts(3)])
  have cells: "replicate (nat n) PyNone ! nat h = PyNone" "a1 ! nat h = Item k v1"
    "a2 ! nat h = DeletedMarker" "a3 ! nat h = Item k v2"
    using h n by (simp_all add: a1_def a2_def a3_def)
  have p0: "hashy_probe t0 k True = Inr h"
    using h n cells by (simp add: hashy_probe_def st t0 [symmetric]) (simp add: t0 probe_loop_step)
  have p1: "hashy_probe t1 k False = Inr h"
    using h n cells len by (simp add: hashy_probe_def hs) (simp add: t1_def probe_loop_step)
  have p2: "hashy_probe t2 k True = Inr h"
    using h n cells len by (simp add: hashy_probe_def hs) (simp add: t2_def probe_loop_step)
  have p3: "hashy_probe t3 k False = Inr h"
    using h n cells len by (simp add: hashy_probe_def hs) (simp add: t3_def probe_loop_step)
  have s1: "setitem t0 k v1 = (Inr (), t1)"
    using n2 cells by (simp add: setitem.simps p0)
      (simp add: t0 t1_def a1_def array_set_def len_def len_dunder_def table_size_def)
  have d1: "delitem t1 k = (Inr (), t2)"
    by (simp add: delitem_def p1) (simp add: t1_def t2_def a2_def array_set_def)
  have s2: "setitem t2 k v2 = (Inr (), t3)"
    using n2 cells len by (simp add: setitem.simps p2)
      (simp add: t2_def t3_def a3_def array_set_def len_def len_dunder_def table_size_def)
  have d2: "delitem t3 k = (Inr (), t4)"
    by (simp add: delitem_def p3) (simp add: t3_def t4_def a4_def array_set_def t2_def)
  have a4: "a4 ! nat h = DeletedMarker"
    using h n by (simp add: a4_def a3_def a2_def a1_def)
  have c1: "array t1 ! nat h = Item k v1" "count t1 = 1"
    using cells by (simp_all add: t1_def)
  have c2: "array t2 ! nat h = DeletedMarker" "count t2 = 0"
    using cells by (simp_all add: t2_def)
  have c3: "array t3 ! nat h = Item k v2" "count t3 = 0"
    using cells by (simp_all add: t3_def t2_def)
  have c4: "array t4 ! nat h = DeletedMarker" "count t4 = - 1"
    using a4 by (simp_all add: t4_def)
  have fin: "len_dunder t4 = - 1" "len t4 = Inl ValueError" "\<not> is_empty t4"
    by (simp_all add: len_def len_dunder_def is_empty_def t4_def)
  from h(1,2) h(3) [folded tsn] s1 c1 d1 c2 s2 c3 d2 c4 fin show ?thesis by blast
qed

theorem len_negative_witness:
  "init None = Inr (default_table :: int table) \<and>
   2 \<le> table_size (default_table :: int table) \<and>
   (\<exists>h t1 t2 t3 t4.
      hash (default_table :: int table) (py ''k'') = Inr h \<and> 0 \<le> h \<and>
      h < table_size (default_table :: int table) \<and>
      setitem (default_table :: int table) (py ''k'') 1 = (Inr (), t1) \<and>
      array t1 ! nat h = Item (py ''k'') 1 \<and> count t1 = 1 \<and>
      delitem t1 (py ''k'') = (Inr (), t2) \<and>
      array t2 ! nat h = DeletedMarker \<and> count t2 = 0 \<and>
      setitem t2 (py ''k'') 2 = (Inr (), t3) \<and>
      array t3 ! nat h = Item (py ''k'') 2 \<and> count t3 = 0 \<and>
      delitem t3 (py ''k'') = (Inr (), t4) \<and>
      array t4 ! nat h = DeletedMarker \<and> count t4 = - 1 \<and>
      len_dunder t4 = - 1 \<and> len t4 = Inl ValueError \<and> \<not> is_empty t4)"
proof -
  have ts: "2 \<le> table_size (default_table :: int table)"
    by (simp add: table_size_def default_table_def)
  from len_negative [OF init_default ts, of "py ''k''" 1 2] init_default ts
  show ?thesis by blast
qed

subsection \<open>The load factor after an insertion\<close>

lemma load_ok_success:
  fixes s s0 s1 :: "'v table"
  shows "setitem s key data = (Inr (), s') \<Longrightarrow> load_ok s'"
    and "rehash s0 = (Inr (), s0') \<Longrightarrow> load_ok s0'"
    and "load_ok s1 \<Longrightarrow> rehash_loop l s1 = (Inr (), s1') \<Longrightarrow> load_ok s1'"
proof (induction s key data and s0 and l s1 arbitrary: s' and s0' and s1'
    rule: setitem_rehash_rehash_loop.induct)
  case (1 s key data)
  from "1.prems" obtain b where b: "hashy_probe s key True = Inr b"
    by (cases "hashy_probe s key True") (simp_all add: setitem.simps)
  define x where "x = (if array s ! nat b = PyNone then s\<lparr>count := count s + 1\<rparr> else s)"
  define xa where "xa = x\<lparr>array := array_set (array x) b (Item key data)\<rparr>"
  from "1.prems" b obtain ba where ba: "len xa = Inr ba"
    by (cases "len xa") (simp_all add: setitem.simps Let_def x_def [symmetric] xa_def [symmetric])
  show ?case
  proof (cases "table_size xa * 2 < 3 * ba")
    case True
    with "1.prems" b ba have "rehash xa = (Inr (), s')"
      by (simp add: setitem.simps Let_def x_def [symmetric] xa_def [symmetric])
    with "1.IH" [OF b x_def xa_def ba True] show ?thesis .
  next
    case False
    with "1.prems" b ba have "s' = xa"
      by (simp add: setitem.simps Let_def x_def [symmetric] xa_def [symmetric])
    with False ba show ?thesis
      by (auto simp: load_ok_def len_def len_dunder_def split: if_splits)
  qed
next
  case (2 s)
  define xa where "xa = s\<lparr>size_index := size_index s + 1\<rparr>"
  from "2.prems" have c: "\<not> length (TABLE_SIZES xa) \<le> size_index xa"
    by (auto simp: rehash.simps Let_def xa_def split: if_splits)
  with "2.prems" obtain b :: "'v cell list" where b: "ArrayR (TABLE_SIZES xa ! size_index xa) = Inr b"
    by (cases "ArrayR (TABLE_SIZES xa ! size_index xa) :: error + 'v cell list")
       (simp_all add: rehash.simps Let_def xa_def)
  with "2.prems" c have r: "rehash_loop (array s) (xa\<lparr>array := b, count := 0\<rparr>) = (Inr (), s0')"
    by (simp add: rehash.simps Let_def xa_def)
  have "load_ok (xa\<lparr>array := b, count := 0\<rparr>)"
    by (simp add: load_ok_def table_size_def)
  with "2.IH" [OF refl xa_def c b] r show ?case by blast
next
  case (3 s)
  then show ?case by simp
next
  case (4 item rest s)
  show ?case
  proof (cases item)
    case PyNone
    with "4.prems" "4.IH"(1) show ?thesis by simp
  next
    case DeletedMarker
    with "4.prems" "4.IH"(2) show ?thesis by simp
  next
    case (Item k v)
    obtain r y where sy: "setitem s k v = (r, y)" by (cases "setitem s k v")
    with "4.prems" Item obtain u where r: "r = Inr u" by (cases r) simp_all
    with sy "4.IH"(3) [OF Item] have "load_ok y" by simp
    moreover from "4.prems" Item sy r have "rehash_loop rest y = (Inr (), s1')" by simp
    ultimately show ?thesis using "4.IH"(4) [OF Item sy [symmetric] r] by blast
  qed
qed

text \<open>
  C6. Whenever \<^verbatim>\<open>__setitem__\<close> returns without raising, from any table and also when
  it has rebuilt the table (once or several times), \<^verbatim>\<open>len\<close> of the resulting table is at
  most two thirds of its capacity: \<open>3 * len \<le> 2 * table_size\<close>.
\<close>

theorem load_factor_after_set:
  assumes "setitem s key data = (Inr (), s')"
  shows "\<exists>n. len s' = Inr n \<and> 3 * n \<le> table_size s' * 2"
  using load_ok_success(1) [OF assms] by (simp add: load_ok_def len_def len_dunder_def)

lemma set_d_resizes:
  "setitem \<lparr>TABLE_SIZES = [5, 13], size_index = 0,
            array = [PyNone, PyNone, Item (py ''a'') 1, Item (py ''b'') 2, Item (py ''c'') 3],
            count = 3\<rparr> (py ''d'') (4 :: int)
   = (Inr (), \<lparr>TABLE_SIZES = [5, 13], size_index = 1,
        array = [PyNone, PyNone, PyNone, PyNone, PyNone, PyNone, Item (py ''a'') 1,
                 Item (py ''b'') 2, Item (py ''c'') 3, Item (py ''d'') 4, PyNone, PyNone, PyNone],
        count = 4\<rparr>)"
  by (simp add: eval_defs setitem.simps rehash.simps eval_nat_numeral)

theorem load_factor_after_set_witness:
  "setitem \<lparr>TABLE_SIZES = [5, 13], size_index = 0,
            array = [PyNone, PyNone, Item (py ''a'') 1, Item (py ''b'') 2, Item (py ''c'') 3],
            count = 3\<rparr> (py ''d'') (4 :: int)
   = (Inr (), \<lparr>TABLE_SIZES = [5, 13], size_index = 1,
        array = [PyNone, PyNone, PyNone, PyNone, PyNone, PyNone, Item (py ''a'') 1,
                 Item (py ''b'') 2, Item (py ''c'') 3, Item (py ''d'') 4, PyNone, PyNone, PyNone],
        count = 4\<rparr>) \<and>
   (\<exists>n. len \<lparr>TABLE_SIZES = [5, 13], size_index = 1,
        array = [PyNone, PyNone, PyNone, PyNone, PyNone, PyNone, Item (py ''a'') 1,
                 Item (py ''b'') 2, Item (py ''c'') 3, Item (py ''d'') (4 :: int), PyNone, PyNone,
                 PyNone],
        count = 4\<rparr> = Inr n \<and> 3 * n \<le> 13 * 2)"
  using load_factor_after_set [OF set_d_resizes] set_d_resizes
  by (simp add: table_size_def)

subsection \<open>The empty key\<close>

text \<open>
  C7, as claimed: an empty key makes get, set, delete and contains fail fast with an
  error. The code does not: on the default table \<^verbatim>\<open>t[""] = 7\<close> succeeds, and then
  \<^verbatim>\<open>t[""]\<close> is 7, \<^verbatim>\<open>"" in t\<close> is true and \<^verbatim>\<open>del t[""]\<close> succeeds.
\<close>

theorem empty_key_counterexample:
  "fst (setitem (default_table :: int table) [] 7) = Inr () \<and>
   getitem (snd (setitem (default_table :: int table) [] 7)) [] = Inr (Data 7) \<and>
   contains (snd (setitem (default_table :: int table) [] 7)) [] = Inr True \<and>
   fst (delitem (snd (setitem (default_table :: int table) [] 7)) []) = Inr ()"
  by (simp add: eval_defs setitem.simps rehash.simps default_table_def eval_nat_numeral)

text \<open>
  C7, as the code has it: no operation rejects the empty key. For the empty key the loops
  of \<^verbatim>\<open>hash\<close> and \<^verbatim>\<open>hash2\<close> run no iteration, so on every table \<^verbatim>\<open>hash\<close> returns
  position 0 and \<^verbatim>\<open>hash2\<close> returns step 1 without raising, and \<^verbatim>\<open>_hashy_probe\<close> walks
  from position 0 with step 1 as it does for any other key. On the default table
  \<^verbatim>\<open>t[""] = v\<close> succeeds for every value and \<^verbatim>\<open>t[""]\<close> then returns it.
\<close>

theorem empty_key_hashed:
  "hash s [] = Inr 0 \<and> hash2 s [] = Inr 1 \<and>
   hashy_probe s [] is_insert = probe_loop (length (array s)) (array s) [] is_insert 0 1 \<and>
   fst (setitem default_table [] v) = Inr () \<and>
   getitem (snd (setitem default_table [] v)) [] = Inr (Data v)"
  by (simp add: eval_defs setitem.simps rehash.simps default_table_def eval_nat_numeral)

subsection \<open>The table after a failed call\<close>

text \<open>
  C4, as claimed: every failed operation leaves the table unchanged, in particular an
  insertion that triggers a resize when no larger size is configured. The code does not
  undo anything: with \<^verbatim>\<open>sizes = [5]\<close>, after inserting \<^verbatim>\<open>"a"\<close>, \<^verbatim>\<open>"b"\<close>, \<^verbatim>\<open>"c"\<close>
  the call \<^verbatim>\<open>t["d"] = 4\<close> raises \<^verbatim>\<open>FullError\<close> and leaves a different table: the entry
  is written (\<^verbatim>\<open>t["d"]\<close> is 4), \<open>count\<close> is 4 and \<open>size_index\<close> is 1.
\<close>

theorem failed_set_counterexample:
  "init (Some [5]) = Inr \<lparr>TABLE_SIZES = [5], size_index = 0,
      array = replicate 5 (PyNone :: int cell), count = 0\<rparr> \<and>
   run \<lparr>TABLE_SIZES = [5], size_index = 0, array = replicate 5 PyNone, count = 0\<rparr>
     [Set (py ''a'') 1, Set (py ''b'') 2, Set (py ''c'') 3]
   = ([Inr (), Inr (), Inr ()],
      \<lparr>TABLE_SIZES = [5], size_index = 0,
        array = [PyNone, PyNone, Item (py ''a'') 1, Item (py ''b'') 2, Item (py ''c'') (3 :: int)],
        count = 3\<rparr>) \<and>
   setitem \<lparr>TABLE_SIZES = [5], size_index = 0,
        array = [PyNone, PyNone, Item (py ''a'') 1, Item (py ''b'') 2, Item (py ''c'') (3 :: int)],
        count = 3\<rparr> (py ''d'') 4
   = (Inl FullError,
      \<lparr>TABLE_SIZES = [5], size_index = 1,
        array = [Item (py ''d'') 4, PyNone, Item (py ''a'') 1, Item (py ''b'') 2,
                 Item (py ''c'') 3],
        count = 4\<rparr>) \<and>
   getitem \<lparr>TABLE_SIZES = [5], size_index = 1,
        array = [Item (py ''d'') 4, PyNone, Item (py ''a'') 1, Item (py ''b'') 2,
                 Item (py ''c'') (3 :: int)],
        count = 4\<rparr> (py ''d'') = Inr (Data 4)"
  by (simp add: eval_defs setitem.simps rehash.simps eval_nat_numeral)

text \<open>
  C4, as the code has it. A deletion that raises leaves the table unchanged (and lookups
  never change it: \<open>getitem\<close> and \<open>contains\<close> return no table). An insertion whose probe
  raises leaves the table unchanged. An insertion whose probe resolves to a position, that
  exceeds the load bound and finds no further configured size raises \<^verbatim>\<open>FullError\<close>
  after the mutation: the entry stays written in the old array, \<open>count\<close> keeps its new
  value and \<open>size_index\<close> is advanced by one; the array is not replaced.
\<close>

theorem failed_operations:
  "(delitem s key = (Inl e, s') \<longrightarrow> s' = s) \<and>
   (hashy_probe s key True = Inl e \<longrightarrow> setitem s key data = (Inl e, s)) \<and>
   (hashy_probe s key True = Inr p \<and>
    c = (if array s ! nat p = PyNone then count s + 1 else count s) \<and>
    0 \<le> c \<and> table_size s * 2 < 3 * c \<and>
    length (TABLE_SIZES s) \<le> size_index s + 1 \<longrightarrow>
      setitem s key data =
        (Inl FullError,
         s\<lparr>size_index := size_index s + 1,
           array := array_set (array s) p (Item key data), count := c\<rparr>))"
proof (intro conjI impI)
  assume "delitem s key = (Inl e, s')"
  then show "s' = s"
    by (cases "hashy_probe s key False") (simp_all add: delitem_def)
next
  assume "hashy_probe s key True = Inl e"
  then show "setitem s key data = (Inl e, s)"
    by (simp add: setitem.simps)
next
  assume a: "hashy_probe s key True = Inr p \<and>
    c = (if array s ! nat p = PyNone then count s + 1 else count s) \<and>
    0 \<le> c \<and> table_size s * 2 < 3 * c \<and>
    length (TABLE_SIZES s) \<le> size_index s + 1"
  then show "setitem s key data =
        (Inl FullError,
         s\<lparr>size_index := size_index s + 1,
           array := array_set (array s) p (Item key data), count := c\<rparr>)"
    by (auto simp: setitem.simps rehash.simps Let_def len_def len_dunder_def table_size_def
        array_set_def)
qed

theorem failed_operations_witness:
  "delitem (default_table :: int table) (py ''a'') = (Inl KeyError, default_table) \<and>
   hashy_probe \<lparr>TABLE_SIZES = [1], size_index = 0, array = [PyNone :: int cell], count = 0\<rparr>
     (py ''a'') True = Inl ZeroDivisionError \<and>
   setitem \<lparr>TABLE_SIZES = [1], size_index = 0, array = [PyNone], count = 0\<rparr> (py ''a'') (1 :: int)
     = (Inl ZeroDivisionError,
        \<lparr>TABLE_SIZES = [1], size_index = 0, array = [PyNone], count = 0\<rparr>) \<and>
   hashy_probe \<lparr>TABLE_SIZES = [5], size_index = 0,
        array = [PyNone, PyNone, Item (py ''a'') 1, Item (py ''b'') 2, Item (py ''c'') (3 :: int)],
        count = 3\<rparr> (py ''d'') True = Inr 0 \<and>
   setitem \<lparr>TABLE_SIZES = [5], size_index = 0,
        array = [PyNone, PyNone, Item (py ''a'') 1, Item (py ''b'') 2, Item (py ''c'') (3 :: int)],
        count = 3\<rparr> (py ''d'') 4
   = (Inl FullError,
      \<lparr>TABLE_SIZES = [5], size_index = 1,
        array = [Item (py ''d'') 4, PyNone, Item (py ''a'') 1, Item (py ''b'') 2,
                 Item (py ''c'') 3],
        count = 4\<rparr>)"
proof -
  have d: "delitem (default_table :: int table) (py ''a'') = (Inl KeyError, default_table)"
    by (simp add: eval_defs default_table_def eval_nat_numeral)
  have z: "hashy_probe \<lparr>TABLE_SIZES = [1], size_index = 0, array = [PyNone :: int cell], count = 0\<rparr>
     (py ''a'') True = Inl ZeroDivisionError"
    by (simp add: eval_defs)
  have p: "hashy_probe \<lparr>TABLE_SIZES = [5], size_index = 0,
        array = [PyNone, PyNone, Item (py ''a'') 1, Item (py ''b'') 2, Item (py ''c'') (3 :: int)],
        count = 3\<rparr> (py ''d'') True = Inr 0"
    by (simp add: eval_defs eval_nat_numeral)
  note f = failed_operations
  from f [where s = "default_table :: int table" and key = "py ''a''" and e = KeyError
            and s' = default_table] d
    f [where s = "\<lparr>TABLE_SIZES = [1], size_index = 0, array = [PyNone :: int cell], count = 0\<rparr>"
         and key = "py ''a''" and e = ZeroDivisionError and data = 1] z
    f [where s = "\<lparr>TABLE_SIZES = [5], size_index = 0,
        array = [PyNone, PyNone, Item (py ''a'') 1, Item (py ''b'') 2, Item (py ''c'') (3 :: int)],
        count = 3\<rparr>" and key = "py ''d''" and p = 0 and c = 4 and data = 4] p
  show ?thesis
    by (simp add: table_size_def array_set_def)
qed

subsection \<open>The probe walk\<close>

lemma probe_in_range:
  "probe_loop n a k ins pos st = Inr p \<Longrightarrow> 0 \<le> p \<and> p < int (length a)"
  by (induction n arbitrary: pos)
     (auto simp: array_get_def split: if_splits cell.splits)

lemma probe_insert_cell:
  "probe_loop n a k True pos st = Inr p \<Longrightarrow>
     a ! nat p = PyNone \<or> a ! nat p = DeletedMarker \<or> (\<exists>v. a ! nat p = Item k v)"
  by (induction n arbitrary: pos)
     (auto simp: array_get_def split: if_splits cell.splits)

lemma probe_lookup_cell:
  "probe_loop n a k False pos st = Inr p \<Longrightarrow> \<exists>v. a ! nat p = Item k v"
  by (induction n arbitrary: pos)
     (auto simp: array_get_def split: if_splits cell.splits)

lemma lookup_after_insert:
  "probe_loop n a k True pos st = Inr p \<Longrightarrow>
     probe_loop n (a[nat p := Item k v]) k False pos st = Inr p"
proof (induction n arbitrary: pos)
  case 0
  then show ?case by simp
next
  case (Suc n)
  from Suc.prems have r: "0 \<le> pos" "pos < int (length a)"
    by (auto simp: array_get_def split: if_splits)
  from probe_in_range [OF Suc.prems] have pr: "0 \<le> p" "p < int (length a)" by simp_all
  show ?case
  proof (cases "p = pos")
    case True
    with r show ?thesis by (simp add: array_get_def)
  next
    case False
    with r pr have ne: "nat p \<noteq> nat pos" by simp
    from Suc.prems False r obtain k' v' where
      c: "a ! nat pos = Item k' v'" "k' \<noteq> k"
      and rec: "probe_loop n a k True ((pos + st) mod int (length a)) st = Inr p"
      by (auto simp: array_get_def split: if_splits cell.splits)
    from Suc.IH [OF rec] c r ne show ?thesis
      by (simp add: array_get_def)
  qed
qed

lemma lookup_stable:
  assumes "probe_loop n a k False pos st = Inr y" and "X \<noteq> k" and "\<forall>v. a ! i \<noteq> Item k v"
  shows "probe_loop n (a[i := Item X x]) k False pos st = Inr y"
  using assms(1)
proof (induction n arbitrary: pos)
  case 0
  then show ?case by simp
next
  case (Suc n)
  from Suc.prems have r: "0 \<le> pos" "pos < int (length a)"
    by (auto simp: array_get_def split: if_splits)
  show ?case
  proof (cases "a ! nat pos")
    case PyNone
    with Suc.prems r show ?thesis by (simp add: array_get_def)
  next
    case DeletedMarker
    with Suc.prems r have "probe_loop n a k False ((pos + st) mod int (length a)) st = Inr y"
      by (simp add: array_get_def)
    from Suc.IH [OF this] DeletedMarker r assms(2) show ?thesis
      by (cases "i = nat pos") (simp_all add: array_get_def)
  next
    case (Item k' v')
    show ?thesis
    proof (cases "k' = k")
      case True
      with Item assms(3) have "i \<noteq> nat pos" by auto
      with Suc.prems Item True r show ?thesis by (simp add: array_get_def)
    next
      case False
      with Suc.prems Item r have "probe_loop n a k False ((pos + st) mod int (length a)) st = Inr y"
        by (simp add: array_get_def)
      from Suc.IH [OF this] Item False r assms(2) show ?thesis
        by (cases "i = nat pos") (simp_all add: array_get_def)
    qed
  qed
qed

lemma placed_insert:
  "probe_loop n a k True pos st = Inr p \<Longrightarrow> placed n a p pos st"
  by (induction n arbitrary: pos)
     (auto simp: array_get_def split: if_splits cell.splits)

lemma placed_mono:
  "placed n a x pos st \<Longrightarrow> c \<noteq> PyNone \<Longrightarrow> placed n (a[i := c]) x pos st"
proof (induction n arbitrary: pos)
  case 0
  then show ?case by simp
next
  case (Suc n)
  show ?case
  proof (cases "pos = x")
    case True
    then show ?thesis by simp
  next
    case False
    with Suc.prems have 1: "a ! nat pos \<noteq> PyNone"
      and 2: "placed n a x ((pos + st) mod int (length a)) st" by simp_all
    have "a[i := c] ! nat pos \<noteq> PyNone"
      using 1 Suc.prems(2) by (cases "i = nat pos"; cases "i < length a") (simp_all add: list_update_beyond)
    with Suc.IH [OF 2 Suc.prems(2)] show ?thesis by simp
  qed
qed

lemma insert_at_none_unique:
  "probe_loop n a k True pos st = Inr p \<Longrightarrow> a ! nat p = PyNone \<Longrightarrow>
   placed n a (int x) pos st \<Longrightarrow> a ! x \<noteq> Item k v'"
proof (induction n arbitrary: pos)
  case 0
  then show ?case by simp
next
  case (Suc n)
  from Suc.prems(1) have r: "0 \<le> pos" "pos < int (length a)"
    by (auto simp: array_get_def split: if_splits)
  show ?case
  proof (cases "a ! nat pos")
    case PyNone
    with Suc.prems r show ?thesis by (auto simp: array_get_def)
  next
    case DeletedMarker
    with Suc.prems r show ?thesis by (auto simp: array_get_def)
  next
    case (Item k' v'')
    show ?thesis
    proof (cases "k' = k")
      case True
      with Item Suc.prems r show ?thesis by (auto simp: array_get_def)
    next
      case False
      with Item Suc.prems(1) r have
        rec: "probe_loop n a k True ((pos + st) mod int (length a)) st = Inr p"
        by (simp add: array_get_def)
      show ?thesis
      proof (cases "pos = int x")
        case True
        with Item False show ?thesis by auto
      next
        case nx: False
        with Suc.prems(3) have "placed n a (int x) ((pos + st) mod int (length a)) st"
          by simp
        from Suc.IH [OF rec Suc.prems(2) this] show ?thesis .
      qed
    qed
  qed
qed

subsection \<open>Invariants of insertion and resizing\<close>

lemma store_simps [simp]:
  "table_size (store s key data p) = table_size s"
  "length (array (store s key data p)) = length (array s)"
  "TABLE_SIZES (store s key data p) = TABLE_SIZES s"
  "size_index (store s key data p) = size_index s"
  "array (store s key data p) = (array s)[nat p := Item key data]"
  "count (store s key data p) = (if array s ! nat p = PyNone then count s + 1 else count s)"
  by (simp_all add: store_def table_size_def array_set_def Let_def)

lemma setitem_unfold:
  "setitem s key data =
     (case hashy_probe s key True of
        Inl e \<Rightarrow> (Inl e, s)
      | Inr p \<Rightarrow>
          (case len (store s key data p) of
             Inl e \<Rightarrow> (Inl e, store s key data p)
           | Inr n \<Rightarrow>
               if table_size (store s key data p) * 2 < 3 * n then rehash (store s key data p)
               else (Inr (), store s key data p)))"
  by (simp add: setitem.simps store_def Let_def split: sum.splits)

lemma invariant_rule:
  fixes I J :: "'v table \<Rightarrow> bool" and s s0 s1 :: "'v table"
  assumes st: "\<And>s key data p. I s \<Longrightarrow> hashy_probe s key True = Inr p \<Longrightarrow> J (store s key data p)"
    and keep: "\<And>s key data p n. I s \<Longrightarrow> hashy_probe s key True = Inr p \<Longrightarrow>
        len (store s key data p) = Inr n \<Longrightarrow> \<not> table_size (store s key data p) * 2 < 3 * n \<Longrightarrow>
        I (store s key data p)"
    and neg: "\<And>s key data p e. I s \<Longrightarrow> hashy_probe s key True = Inr p \<Longrightarrow>
        len (store s key data p) = Inl e \<Longrightarrow> I (store s key data p)"
    and stop: "\<And>s. J s \<Longrightarrow>
        length (TABLE_SIZES s) \<le> size_index s + 1 \<or>
        (\<exists>e. (ArrayR (TABLE_SIZES s ! (size_index s + 1)) :: error + 'v cell list) = Inl e) \<Longrightarrow>
        I (s\<lparr>size_index := size_index s + 1\<rparr>)"
    and fresh: "\<And>s a. J s \<Longrightarrow> \<not> length (TABLE_SIZES s) \<le> size_index s + 1 \<Longrightarrow>
        ArrayR (TABLE_SIZES s ! (size_index s + 1)) = Inr a \<Longrightarrow>
        I (s\<lparr>size_index := size_index s + 1, array := a, count := 0\<rparr>)"
  shows "I s \<Longrightarrow> I (snd (setitem s key data))"
    and "J s0 \<Longrightarrow> I (snd (rehash s0))"
    and "I s1 \<Longrightarrow> I (snd (rehash_loop l s1))"
proof (induction s key data and s0 and l s1 rule: setitem_rehash_rehash_loop.induct)
  case (1 s key data)
  show ?case
  proof (cases "hashy_probe s key True")
    case (Inl e)
    with "1.prems" show ?thesis by (simp add: setitem_unfold)
  next
    case (Inr b)
    define x where "x = (if array s ! nat b = PyNone then s\<lparr>count := count s + 1\<rparr> else s)"
    define xa where "xa = x\<lparr>array := array_set (array x) b (Item key data)\<rparr>"
    have xa: "xa = store s key data b" by (simp add: xa_def x_def store_def)
    show ?thesis
    proof (cases "len xa")
      case (Inl e)
      with neg [OF "1.prems" Inr, of data e] Inr show ?thesis
        by (simp add: setitem_unfold xa)
    next
      case len: (Inr ba)
      show ?thesis
      proof (cases "table_size xa * 2 < 3 * ba")
        case True
        from st [OF "1.prems" Inr, of data] have "J xa" by (simp add: xa)
        from "1.IH" [OF Inr x_def xa_def len True this] Inr len True show ?thesis
          by (simp add: setitem_unfold xa [symmetric])
      next
        case False
        with keep [OF "1.prems" Inr, of data ba] Inr len show ?thesis
          by (simp add: setitem_unfold xa [symmetric])
      qed
    qed
  qed
next
  case (2 s)
  define xa where "xa = s\<lparr>size_index := size_index s + 1\<rparr>"
  show ?case
  proof (cases "length (TABLE_SIZES s) \<le> size_index s + 1")
    case True
    with stop [OF "2.prems"] show ?thesis by (simp add: rehash.simps Let_def)
  next
    case False
    then have c: "\<not> length (TABLE_SIZES xa) \<le> size_index xa" by (simp add: xa_def)
    show ?thesis
    proof (cases "ArrayR (TABLE_SIZES s ! (size_index s + 1)) :: error + 'v cell list")
      case (Inl e)
      with stop [OF "2.prems"] False show ?thesis by (simp add: rehash.simps Let_def)
    next
      case (Inr b)
      then have b: "ArrayR (TABLE_SIZES xa ! size_index xa) = Inr b" by (simp add: xa_def)
      from fresh [OF "2.prems" False Inr] have "I (xa\<lparr>array := b, count := 0\<rparr>)"
        by (simp add: xa_def)
      from "2.IH" [OF refl xa_def c b this] False Inr show ?thesis
        by (simp add: rehash.simps Let_def xa_def)
    qed
  qed
next
  case (3 s)
  then show ?case by simp
next
  case (4 item rest s)
  show ?case
  proof (cases item)
    case PyNone
    with "4.prems" "4.IH"(1) show ?thesis by simp
  next
    case DeletedMarker
    with "4.prems" "4.IH"(2) show ?thesis by simp
  next
    case (Item k v)
    obtain r y where sy: "setitem s k v = (r, y)" by (cases "setitem s k v")
    from "4.IH"(3) [OF Item "4.prems"] sy have y: "I y" by simp
    show ?thesis
    proof (cases r)
      case (Inl e)
      with Item sy y show ?thesis by simp
    next
      case (Inr u)
      from "4.IH"(4) [OF Item sy [symmetric] Inr y] Item sy Inr show ?thesis by simp
    qed
  qed
qed

lemma hashy_probe_Inr:
  assumes "hashy_probe s k ins = Inr p"
  obtains h st where "hash s k = Inr h" "hash2 s k = Inr st"
    "probe_loop (length (array s)) (array s) k ins h st = Inr p"
  using assms by (auto simp: hashy_probe_def split: sum.splits)

lemma hash_store [simp]:
  "hash (store s X x p) k = hash s k" "hash2 (store s X x p) k = hash2 s k"
  by (simp_all add: hash_def hash2_def)

lemma well_placed_store:
  assumes "well_placed s" and "hashy_probe s X True = Inr p"
  shows "well_placed (store s X x p)"
  unfolding well_placed_def
proof (intro allI impI)
  fix i k v
  assume i: "i < length (array (store s X x p))"
    and c: "array (store s X x p) ! i = Item k v"
  let ?a = "array s"
  from assms(2) obtain h st where hs: "hash s X = Inr h" "hash2 s X = Inr st"
    and pl: "probe_loop (length ?a) ?a X True h st = Inr p"
    by (rule hashy_probe_Inr)
  from probe_in_range [OF pl] have pr: "0 \<le> p" "p < int (length ?a)" by simp_all
  show "\<exists>h st. hash (store s X x p) k = Inr h \<and> hash2 (store s X x p) k = Inr st \<and>
      placed (length (array (store s X x p))) (array (store s X x p)) (int i) h st"
  proof (cases "i = nat p")
    case True
    with c pr have kv: "k = X" by simp
    from True pr have ip: "int i = p" by simp
    from placed_mono [OF placed_insert [OF pl], of "Item X x" "nat p"]
    have "placed (length ?a) (?a[nat p := Item X x]) p h st" by simp
    with hs kv ip show ?thesis by simp
  next
    case False
    with c i have "?a ! i = Item k v" "i < length ?a" by simp_all
    with assms(1) obtain h' st' where "hash s k = Inr h'" "hash2 s k = Inr st'"
      "placed (length ?a) ?a (int i) h' st'"
      unfolding well_placed_def by blast
    with placed_mono [of "length ?a" ?a "int i" h' st' "Item X x" "nat p"] show ?thesis
      by simp
  qed
qed

lemma well_placed_delete:
  assumes "well_placed s"
  shows "well_placed (s\<lparr>array := array_set (array s) p DeletedMarker, count := c\<rparr>)"
  unfolding well_placed_def
proof (intro allI impI)
  fix i k v
  let ?a = "array s"
  let ?s = "s\<lparr>array := array_set (array s) p DeletedMarker, count := c\<rparr>"
  assume i: "i < length (array ?s)" and c: "array ?s ! i = Item k v"
  then have "i \<noteq> nat p" by (auto simp: array_set_def)
  with c i have "?a ! i = Item k v" "i < length ?a" by (simp_all add: array_set_def)
  with assms obtain h' st' where "hash s k = Inr h'" "hash2 s k = Inr st'"
    "placed (length ?a) ?a (int i) h' st'"
    unfolding well_placed_def by blast
  with placed_mono [of "length ?a" ?a "int i" h' st' DeletedMarker "nat p"]
  show "\<exists>h st. hash ?s k = Inr h \<and> hash2 ?s k = Inr st \<and>
      placed (length (array ?s)) (array ?s) (int i) h st"
    by (simp add: hash_def hash2_def table_size_def array_set_def)
qed

lemma well_placed_fresh:
  assumes "ArrayR n = Inr a"
  shows "well_placed (s\<lparr>size_index := j, array := a, count := 0\<rparr>)"
  using assms by (auto simp: well_placed_def ArrayR_def split: if_splits)

lemma well_placed_size_index:
  "well_placed s \<Longrightarrow> well_placed (s\<lparr>size_index := j\<rparr>)"
  by (simp add: well_placed_def hash_def hash2_def table_size_def)

lemma consistent_setitem:
  fixes s :: "'v table"
  assumes "consistent s"
  shows "consistent (snd (setitem s key data))"
proof (rule invariant_rule(1) [where I = consistent
      and J = "\<lambda>s :: 'v table. well_placed s \<and> sizes_positive s", OF _ _ _ _ _ assms])
  fix s :: "'v table" and key data p
  assume "consistent s" "hashy_probe s key True = Inr p"
  then show "well_placed (store s key data p) \<and> sizes_positive (store s key data p)"
    by (simp add: consistent_def well_placed_store sizes_positive_def)
next
  fix s :: "'v table" and key data p n
  assume "consistent s" "hashy_probe s key True = Inr p"
    "len (store s key data p) = Inr n" "\<not> table_size (store s key data p) * 2 < 3 * n"
  then show "consistent (store s key data p)"
    by (auto simp: consistent_def well_placed_store sizes_positive_def resize_ready_def
        len_def len_dunder_def split: if_splits)
next
  fix s :: "'v table" and key data p e
  assume "consistent s" "hashy_probe s key True = Inr p" "len (store s key data p) = Inl e"
  then show "consistent (store s key data p)"
    by (auto simp: consistent_def well_placed_store sizes_positive_def resize_ready_def
        len_def len_dunder_def table_size_def split: if_splits)
next
  fix s :: "'v table"
  assume J: "well_placed s \<and> sizes_positive s"
    and "length (TABLE_SIZES s) \<le> size_index s + 1 \<or>
        (\<exists>e. (ArrayR (TABLE_SIZES s ! (size_index s + 1)) :: error + 'v cell list) = Inl e)"
  then have "length (TABLE_SIZES s) \<le> size_index s + 1"
    by (auto simp: ArrayR_def sizes_positive_def split: if_splits)
       (metis not_le_imp_less nth_mem leD)
  with J show "consistent (s\<lparr>size_index := size_index s + 1\<rparr>)"
    by (simp add: consistent_def well_placed_size_index resize_ready_def sizes_positive_def)
next
  fix s :: "'v table" and a :: "'v cell list"
  assume "well_placed s \<and> sizes_positive s" "\<not> length (TABLE_SIZES s) \<le> size_index s + 1"
    "ArrayR (TABLE_SIZES s ! (size_index s + 1)) = Inr a"
  then show "consistent (s\<lparr>size_index := size_index s + 1, array := a, count := 0\<rparr>)"
    by (simp add: consistent_def well_placed_fresh resize_ready_def sizes_positive_def
        table_size_def)
qed

lemma consistent_delitem:
  assumes "consistent s"
  shows "consistent (snd (delitem s key))"
proof (cases "hashy_probe s key False")
  case (Inl e)
  with assms show ?thesis by (simp add: delitem_def)
next
  case (Inr p)
  from assms have "well_placed
      (s\<lparr>array := array_set (array s) p DeletedMarker, count := count s - 1\<rparr>)"
    by (simp add: consistent_def well_placed_delete)
  moreover have "length (array_set (array s) p DeletedMarker) = length (array s)"
    by (simp add: array_set_def)
  ultimately show ?thesis using assms Inr
    by (auto simp: delitem_def consistent_def resize_ready_def sizes_positive_def table_size_def)
qed

lemma consistent_init:
  assumes "init sizes = Inr t0" and "sizes_positive t0"
  shows "consistent t0"
  using assms
  by (auto simp: init_def Let_def consistent_def well_placed_def resize_ready_def ArrayR_def
      table_size_def split: list.splits sum.splits if_splits)

lemma consistent_run:
  "consistent s \<Longrightarrow> run s ops = (rs, s') \<Longrightarrow> consistent s'"
proof (induction ops arbitrary: s rs)
  case Nil
  then show ?case by simp
next
  case (Cons x xs)
  obtain r y where e: "exec s x = (r, y)" by (cases "exec s x")
  have "consistent y"
  proof (cases x)
    case (Set k v)
    with e consistent_setitem [OF Cons.prems(1), of k v] show ?thesis by simp
  next
    case (Del k)
    with e consistent_delitem [OF Cons.prems(1), of k] show ?thesis by simp
  qed
  moreover from Cons.prems(2) e obtain rs' where "run y xs = (rs', s')"
    by (auto split: prod.splits)
  ultimately show ?case using Cons.IH by blast
qed

subsection \<open>Round trip\<close>

lemma getitem_store_same:
  assumes "hashy_probe s X True = Inr p"
  shows "getitem (store s X x p) X = Inr (Data x)"
proof -
  let ?a = "array s"
  from assms obtain h st where hs: "hash s X = Inr h" "hash2 s X = Inr st"
    and pl: "probe_loop (length ?a) ?a X True h st = Inr p"
    by (rule hashy_probe_Inr)
  from probe_in_range [OF pl] have pr: "0 \<le> p" "p < int (length ?a)" by simp_all
  from lookup_after_insert [OF pl, of x] hs
  have "hashy_probe (store s X x p) X False = Inr p"
    by (simp add: hashy_probe_def)
  with pr show ?thesis by (simp add: getitem_def)
qed

lemma getitem_Data:
  assumes "getitem s k = Inr (Data v)"
  obtains y where "hashy_probe s k False = Inr y" "array s ! nat y = Item k v"
    "0 \<le> y" "y < int (length (array s))"
proof -
  from assms obtain y where y: "hashy_probe s k False = Inr y"
    by (cases "hashy_probe s k False") (simp_all add: getitem_def)
  then obtain h st where pl: "probe_loop (length (array s)) (array s) k False h st = Inr y"
    by (rule hashy_probe_Inr)
  from probe_lookup_cell [OF pl] obtain v' where c: "array s ! nat y = Item k v'" by blast
  with assms y have "v' = v" by (simp add: getitem_def)
  with c y probe_in_range [OF pl] that show ?thesis by simp
qed

lemma getitem_store_other:
  assumes "hashy_probe s X True = Inr p" and "X \<noteq> k" and "getitem s k = Inr (Data v)"
  shows "getitem (store s X x p) k = Inr (Data v)"
proof -
  let ?a = "array s"
  from assms(1) obtain h st where
    pl: "probe_loop (length ?a) ?a X True h st = Inr p"
    by (rule hashy_probe_Inr)
  from assms(3) obtain y where y: "hashy_probe s k False = Inr y" "?a ! nat y = Item k v"
    by (rule getitem_Data)
  from y(1) obtain h' st' where hs: "hash s k = Inr h'" "hash2 s k = Inr st'"
    and lk: "probe_loop (length ?a) ?a k False h' st' = Inr y"
    by (rule hashy_probe_Inr)
  from probe_insert_cell [OF pl] assms(2) have np: "\<forall>v. ?a ! nat p \<noteq> Item k v" by auto
  with y(2) have ne: "nat p \<noteq> nat y" by auto
  from lookup_stable [OF lk assms(2) np, of x] hs
  have "hashy_probe (store s X x p) k False = Inr y"
    by (simp add: hashy_probe_def)
  with y(2) ne show ?thesis by (simp add: getitem_def)
qed

lemma agrees_store:
  assumes "agrees k v (array s)" and "X = k \<longrightarrow> x = v"
  shows "agrees k v (array (store s X x p))"
  unfolding agrees_def
proof (intro allI impI)
  fix v'
  assume "Item k v' \<in> set (array (store s X x p))"
  then have "Item k v' \<in> insert (Item X x) (set (array s))"
    using set_update_subset_insert [of "array s" "nat p" "Item X x"] by auto
  with assms show "v' = v" by (auto simp: agrees_def)
qed

lemma getitem_mem:
  assumes "getitem s k = Inr (Data v)"
  shows "\<exists>v'. Item k v' \<in> set (array s)"
proof -
  from assms obtain y where "array s ! nat y = Item k v" "0 \<le> y" "y < int (length (array s))"
    by (rule getitem_Data)
  then have "Item k v \<in> set (array s)" by (metis nat_less_iff nth_mem)
  then show ?thesis ..
qed

lemma agrees_fresh:
  "ArrayR n = Inr a \<Longrightarrow> agrees k v a"
  by (auto simp: ArrayR_def agrees_def split: if_splits)

lemma rebuild_keeps_value:
  fixes s s0 s1 :: "'v table"
  shows "agrees k v (array s) \<Longrightarrow> (X = k \<longrightarrow> x = v) \<Longrightarrow> setitem s X x = (Inr (), s') \<Longrightarrow>
      agrees k v (array s') \<and>
      (getitem s k = Inr (Data v) \<or> X = k \<longrightarrow> getitem s' k = Inr (Data v))"
    and "agrees k v (array s0) \<Longrightarrow> rehash s0 = (Inr (), s0') \<Longrightarrow>
      agrees k v (array s0') \<and>
      (getitem s0 k = Inr (Data v) \<longrightarrow> getitem s0' k = Inr (Data v))"
    and "agrees k v (array s1) \<Longrightarrow> agrees k v l \<Longrightarrow> rehash_loop l s1 = (Inr (), s1') \<Longrightarrow>
      agrees k v (array s1') \<and>
      (getitem s1 k = Inr (Data v) \<or> (\<exists>v'. Item k v' \<in> set l) \<longrightarrow>
         getitem s1' k = Inr (Data v))"
proof (induction s X x and s0 and l s1 arbitrary: s' and s0' and s1'
    rule: setitem_rehash_rehash_loop.induct)
  case (1 s X x)
  from "1.prems"(3) obtain b where b: "hashy_probe s X True = Inr b"
    by (cases "hashy_probe s X True") (simp_all add: setitem_unfold)
  define xa0 where "xa0 = (if array s ! nat b = PyNone then s\<lparr>count := count s + 1\<rparr> else s)"
  define xa where "xa = xa0\<lparr>array := array_set (array xa0) b (Item X x)\<rparr>"
  have xa: "xa = store s X x b" by (simp add: xa_def xa0_def store_def)
  from "1.prems"(3) b obtain ba where ba: "len xa = Inr ba"
    by (cases "len xa") (simp_all add: setitem_unfold xa)
  have ag: "agrees k v (array xa)"
    unfolding xa using "1.prems"(1,2) by (rule agrees_store)
  have get: "getitem s k = Inr (Data v) \<or> X = k \<longrightarrow> getitem xa k = Inr (Data v)"
  proof (cases "X = k")
    case True
    with "1.prems"(2) getitem_store_same [OF b, of x] show ?thesis by (simp add: xa)
  next
    case False
    with getitem_store_other [OF b False, of v x] show ?thesis by (simp add: xa)
  qed
  show ?case
  proof (cases "table_size xa * 2 < 3 * ba")
    case True
    with "1.prems"(3) b ba have "rehash xa = (Inr (), s')"
      by (simp add: setitem_unfold xa [symmetric])
    from "1.IH" [OF b xa0_def xa_def ba True ag this] get show ?thesis by blast
  next
    case False
    with "1.prems"(3) b ba have "s' = xa"
      by (simp add: setitem_unfold xa [symmetric])
    with ag get show ?thesis by simp
  qed
next
  case (2 s)
  define xa where "xa = s\<lparr>size_index := size_index s + 1\<rparr>"
  from "2.prems"(2) have c: "\<not> length (TABLE_SIZES xa) \<le> size_index xa"
    by (auto simp: rehash.simps Let_def xa_def split: if_splits)
  with "2.prems"(2) obtain b :: "'v cell list"
    where b: "ArrayR (TABLE_SIZES xa ! size_index xa) = Inr b"
    by (cases "ArrayR (TABLE_SIZES xa ! size_index xa) :: error + 'v cell list")
       (simp_all add: rehash.simps Let_def xa_def)
  with "2.prems"(2) c have r: "rehash_loop (array s) (xa\<lparr>array := b, count := 0\<rparr>) = (Inr (), s0')"
    by (simp add: rehash.simps Let_def xa_def)
  have "agrees k v (array (xa\<lparr>array := b, count := 0\<rparr>))"
    using agrees_fresh [OF b] by simp
  from "2.IH" [OF refl xa_def c b this "2.prems"(1) r] getitem_mem [of s k v]
  show ?case by blast
next
  case (3 s)
  then show ?case by simp
next
  case (4 item rest s)
  from "4.prems"(2) have rest: "agrees k v rest" by (auto simp: agrees_def)
  show ?case
  proof (cases item)
    case PyNone
    with "4.prems" "4.IH"(1) [OF PyNone "4.prems"(1) rest] show ?thesis by simp
  next
    case DeletedMarker
    with "4.prems" "4.IH"(2) [OF DeletedMarker "4.prems"(1) rest] show ?thesis by simp
  next
    case (Item X x)
    obtain r y where sy: "setitem s X x = (r, y)" by (cases "setitem s X x")
    with "4.prems"(3) Item obtain u where r: "r = Inr u" by (cases r) simp_all
    from "4.prems"(2) Item have xv: "X = k \<longrightarrow> x = v" by (auto simp: agrees_def)
    from sy r have sy': "setitem s X x = (Inr (), y)" by simp
    from "4.IH"(3) [OF Item "4.prems"(1) xv sy']
    have y: "agrees k v (array y)"
      "getitem s k = Inr (Data v) \<or> X = k \<longrightarrow> getitem y k = Inr (Data v)" by simp_all
    from "4.prems"(3) Item sy r have lp: "rehash_loop rest y = (Inr (), s1')" by simp
    from "4.IH"(4) [OF Item sy [symmetric] r y(1) rest lp] y(2) Item show ?thesis by auto
  qed
qed

lemma rehash_at_ceiling:
  "length (TABLE_SIZES s) \<le> size_index s + 1 \<Longrightarrow> fst (rehash s) = Inl FullError"
  by (simp add: rehash.simps Let_def)

text \<open>
  C5. Take a table constructed with any sizes that are all positive (the default primes,
  or \<^verbatim>\<open>[5, 13]\<close>), after any sequence of insertions and deletions, whether they succeeded
  or raised. If \<^verbatim>\<open>table[k] = v\<close> then returns without raising, with or without
  rebuilding the table, \<^verbatim>\<open>table[k]\<close> returns \<open>v\<close>.
\<close>

theorem round_trip:
  fixes t0 :: "'v table"
  assumes "init sizes = Inr t0" and "sizes_positive t0"
    and "run t0 ops = (rs, s)" and "setitem s k v = (Inr (), s')"
  shows "getitem s' k = Inr (Data v)"
proof -
  from assms(1,2) have "consistent t0" by (rule consistent_init)
  with assms(3) have cs: "consistent s" by (rule consistent_run [rotated -1]) 
  from assms(4) obtain p where p: "hashy_probe s k True = Inr p"
    by (cases "hashy_probe s k True") (simp_all add: setitem_unfold)
  let ?s2 = "store s k v p"
  from assms(4) p obtain n where n: "len ?s2 = Inr n"
    by (cases "len ?s2") (simp_all add: setitem_unfold)
  have get: "getitem ?s2 k = Inr (Data v)" using p by (rule getitem_store_same)
  show ?thesis
  proof (cases "table_size ?s2 * 2 < 3 * n")
    case False
    with assms(4) p n have "s' = ?s2" by (simp add: setitem_unfold)
    with get show ?thesis by simp
  next
    case True
    with assms(4) p n have re: "rehash ?s2 = (Inr (), s')" by (simp add: setitem_unfold)
    from n have cn: "count ?s2 = n"
      by (auto simp: len_def len_dunder_def split: if_splits)
    from p obtain h st where hs: "hash s k = Inr h" "hash2 s k = Inr st"
      and pl: "probe_loop (length (array s)) (array s) k True h st = Inr p"
      by (rule hashy_probe_Inr)
    have none: "array s ! nat p = PyNone"
    proof (rule ccontr)
      assume "array s ! nat p \<noteq> PyNone"
      with cn True have "\<not> 3 * count s \<le> table_size s * 2" by simp
      with cs have "length (TABLE_SIZES ?s2) \<le> size_index ?s2 + 1"
        by (simp add: consistent_def resize_ready_def)
      from rehash_at_ceiling [OF this] re show False by simp
    qed
    have "agrees k v (array ?s2)"
      unfolding agrees_def
    proof (intro allI impI)
      fix v'
      assume "Item k v' \<in> set (array ?s2)"
      then have "Item k v' \<in> insert (Item k v) (set (array s))"
        using set_update_subset_insert [of "array s" "nat p" "Item k v"] by auto
      moreover have "Item k v' \<notin> set (array s)"
      proof
        assume "Item k v' \<in> set (array s)"
        then obtain i where i: "i < length (array s)" "array s ! i = Item k v'"
          by (auto simp: in_set_conv_nth)
        with cs hs have "placed (length (array s)) (array s) (int i) h st"
          by (auto simp: consistent_def well_placed_def)
        from insert_at_none_unique [OF pl none this, of v'] i(2) show False by simp
      qed
      ultimately show "v' = v" by simp
    qed
    from rebuild_keeps_value(2) [OF this re] get show ?thesis by simp
  qed
qed

lemma run_abc:
  "run \<lparr>TABLE_SIZES = [5, 13], size_index = 0, array = replicate 5 PyNone, count = 0\<rparr>
     [Set (py ''a'') 1, Set (py ''b'') 2, Set (py ''c'') 3]
   = ([Inr (), Inr (), Inr ()],
      \<lparr>TABLE_SIZES = [5, 13], size_index = 0,
        array = [PyNone, PyNone, Item (py ''a'') 1, Item (py ''b'') 2, Item (py ''c'') (3 :: int)],
        count = 3\<rparr>)"
  by (simp add: eval_defs setitem.simps rehash.simps eval_nat_numeral)

lemma init_5_13:
  "init (Some [5, 13])
   = Inr \<lparr>TABLE_SIZES = [5, 13], size_index = 0, array = replicate 5 PyNone, count = 0\<rparr>"
  by (simp add: init_def ArrayR_def eval_nat_numeral)

theorem round_trip_witness:
  "init (Some [5, 13])
     = Inr \<lparr>TABLE_SIZES = [5, 13], size_index = 0,
           array = replicate 5 (PyNone :: int cell), count = 0\<rparr> \<and>
   sizes_positive \<lparr>TABLE_SIZES = [5, 13], size_index = 0,
           array = replicate 5 (PyNone :: int cell), count = 0\<rparr> \<and>
   run \<lparr>TABLE_SIZES = [5, 13], size_index = 0, array = replicate 5 PyNone, count = 0\<rparr>
     [Set (py ''a'') 1, Set (py ''b'') 2, Set (py ''c'') 3]
   = ([Inr (), Inr (), Inr ()],
      \<lparr>TABLE_SIZES = [5, 13], size_index = 0,
        array = [PyNone, PyNone, Item (py ''a'') 1, Item (py ''b'') 2, Item (py ''c'') (3 :: int)],
        count = 3\<rparr>) \<and>
   setitem \<lparr>TABLE_SIZES = [5, 13], size_index = 0,
            array = [PyNone, PyNone, Item (py ''a'') 1, Item (py ''b'') 2, Item (py ''c'') 3],
            count = 3\<rparr> (py ''d'') (4 :: int)
   = (Inr (), \<lparr>TABLE_SIZES = [5, 13], size_index = 1,
        array = [PyNone, PyNone, PyNone, PyNone, PyNone, PyNone, Item (py ''a'') 1,
                 Item (py ''b'') 2, Item (py ''c'') 3, Item (py ''d'') 4, PyNone, PyNone, PyNone],
        count = 4\<rparr>) \<and>
   getitem \<lparr>TABLE_SIZES = [5, 13], size_index = 1,
        array = [PyNone, PyNone, PyNone, PyNone, PyNone, PyNone, Item (py ''a'') 1,
                 Item (py ''b'') 2, Item (py ''c'') 3, Item (py ''d'') (4 :: int), PyNone, PyNone,
                 PyNone],
        count = 4\<rparr> (py ''d'') = Inr (Data 4)"
proof -
  have pos: "sizes_positive \<lparr>TABLE_SIZES = [5, 13], size_index = 0,
           array = replicate 5 (PyNone :: int cell), count = 0\<rparr>"
    by (simp add: sizes_positive_def)
  from round_trip [OF init_5_13 pos run_abc set_d_resizes] init_5_13 pos run_abc set_d_resizes
  show ?thesis by blast
qed

end
